theory Spec2Isabelle
  imports Main "HOL-Library.Word"
begin

unbundle bit_operations_syntax

section \<open>Values and errors of the Python program\<close>

text \<open>
  Python integers are unbounded: they are modelled by \<^typ>\<open>int\<close>, whose \<open>div\<close> and
  \<open>mod\<close> round towards minus infinity as Python's \<open>//\<close> and \<open>%\<close> do.
  A raised exception is the left injection of a sum; a \<open>while\<close> loop that need not
  leave is a function into \<open>option\<close>, where \<open>None\<close> stands for not returning.
\<close>

datatype error = AssertionError | ValueError | ZeroDivisionError | IndexError

text \<open>
  \<open>is_perfect_square\<close> returns either the integer root or the boolean \<open>False\<close>;
  its caller tests the returned object for truth and adds it to an integer.
\<close>

datatype pyval = PyInt int | PyBool bool

fun truthy :: "pyval \<Rightarrow> bool" where
  "truthy (PyInt i) = (i \<noteq> 0)"
| "truthy (PyBool b) = b"

fun int_of_pyval :: "pyval \<Rightarrow> int" where
  "int_of_pyval (PyInt i) = i"
| "int_of_pyval (PyBool b) = (if b then 1 else 0)"

type_synonym byte = "8 word"

section \<open>Bit length and integer square root\<close>

text \<open>The loop of \<open>get_bit_length\<close>: \<open>while x > 0: n = n + 1; x = x >> 1\<close>.\<close>

function get_bit_length_loop :: "int \<Rightarrow> int \<Rightarrow> int" where
  "get_bit_length_loop n x =
     (if x > 0 then get_bit_length_loop (n + 1) (drop_bit 1 x) else n)"
  by pat_completeness auto
termination
  by (relation "measure (\<lambda>(n, x). nat x)") (auto simp: drop_bit_eq_div)

declare get_bit_length_loop.simps [simp del]

definition get_bit_length :: "int \<Rightarrow> error + int" where
  "get_bit_length x =
     (if x \<ge> 0 then Inr (get_bit_length_loop 0 x) else Inl AssertionError)"

text \<open>
  The loop of \<open>get_whole_sqrt\<close>: \<open>while True: y = (x + n // x) // 2; if y >= x: return x; x = y\<close>.
  The division raises when \<open>x\<close> is zero.
\<close>

partial_function (option) get_whole_sqrt_loop :: "int \<Rightarrow> int \<Rightarrow> (error + int) option" where
  "get_whole_sqrt_loop n x =
     (if x = 0 then Some (Inl ZeroDivisionError)
      else if (x + n div x) div 2 \<ge> x then Some (Inr x)
      else get_whole_sqrt_loop n ((x + n div x) div 2))"

declare get_whole_sqrt_loop.simps [code]

definition get_whole_sqrt :: "int \<Rightarrow> (error + int) option" where
  "get_whole_sqrt n =
     (if n < 0 then Some (Inl ValueError)
      else if n = 0 then Some (Inr 0)
      else (case get_bit_length n of
              Inl err \<Rightarrow> Some (Inl err)
            | Inr bl \<Rightarrow>
                (let a = bl div 2; b = bl mod 2; x = 2 ^ nat (a + b)
                 in get_whole_sqrt_loop n x)))"

definition is_perfect_square :: "int \<Rightarrow> (error + pyval) option" where
  "is_perfect_square n =
     (let h = n AND 15 in
      if h > 9 then Some (Inr (PyBool False))
      else if h \<noteq> 2 \<and> h \<noteq> 3 \<and> h \<noteq> 5 \<and> h \<noteq> 6 \<and> h \<noteq> 7 \<and> h \<noteq> 8 then
        (case get_whole_sqrt n of
           None \<Rightarrow> None
         | Some (Inl err) \<Rightarrow> Some (Inl err)
         | Some (Inr t) \<Rightarrow>
             if t * t = n then Some (Inr (PyInt t)) else Some (Inr (PyBool False)))
      else Some (Inr (PyBool False)))"

section \<open>Continued fractions\<close>

text \<open>
  \<open>_contfrac_to_rational\<close>: the loop variable runs over \<open>-2, -3, ..., -len(frac)\<close>,
  and \<open>frac[-j]\<close> is the element at position \<open>len(frac) - j\<close>.
\<close>

definition contfrac_to_rational :: "int list \<Rightarrow> int \<times> int" where
  "contfrac_to_rational frac =
     (if length frac = 0 then (0, 1)
      else fold (\<lambda>j (num, denom). (frac ! (length frac - j) * num + denom, num))
             [2 ..< Suc (length frac)] (last frac, 1))"

text \<open>\<open>_convergents_from_contfrac\<close>: one entry for each \<open>i\<close> in \<open>range(len(frac))\<close>.\<close>

definition convergents_from_contfrac :: "int list \<Rightarrow> (int \<times> int) list" where
  "convergents_from_contfrac frac =
     map (\<lambda>i. contfrac_to_rational (take i frac)) [0 ..< length frac]"

text \<open>
  The loop of \<open>_rational_to_contfrac\<close>:
  \<open>while a * y != x: x, y = y, x - a * y; a = x // y; pquotients.append(a)\<close>.
\<close>

partial_function (option) rational_to_contfrac_loop ::
  "int \<Rightarrow> int \<Rightarrow> int \<Rightarrow> int list \<Rightarrow> (error + int list) option" where
  "rational_to_contfrac_loop x y a pquotients =
     (if a * y \<noteq> x then
        (if x - a * y = 0 then Some (Inl ZeroDivisionError)
         else rational_to_contfrac_loop y (x - a * y) (y div (x - a * y))
                (pquotients @ [y div (x - a * y)]))
      else Some (Inr pquotients))"

declare rational_to_contfrac_loop.simps [code]

definition rational_to_contfrac :: "int \<Rightarrow> int \<Rightarrow> (error + int list) option" where
  "rational_to_contfrac x y =
     (if y = 0 then Some (Inl ZeroDivisionError)
      else rational_to_contfrac_loop x y (x div y) [x div y])"

section \<open>The attack\<close>

text \<open>
  The \<open>for\<close> loop of \<open>wiener_attack\<close> over the convergents; leaving the loop without
  a \<open>return\<close> yields Python's \<open>None\<close>.
\<close>

fun wiener_attack_loop :: "int \<Rightarrow> int \<Rightarrow> (int \<times> int) list \<Rightarrow> (error + int option) option" where
  "wiener_attack_loop e n [] = Some (Inr None)"
| "wiener_attack_loop e n ((k, d) # convergents) =
     (if k \<noteq> 0 \<and> (e * d - 1) mod k = 0 then
        (let phi = (e * d - 1) div k;
             s = n - phi + 1;
             discr = s * s - 4 * n
         in if discr \<ge> 0 then
              (case is_perfect_square discr of
                 None \<Rightarrow> None
               | Some (Inl err) \<Rightarrow> Some (Inl err)
               | Some (Inr t) \<Rightarrow>
                   if truthy t \<and> (s + int_of_pyval t) mod 2 = 0 then Some (Inr (Some d))
                   else wiener_attack_loop e n convergents)
            else wiener_attack_loop e n convergents)
      else wiener_attack_loop e n convergents)"

definition wiener_attack :: "int \<Rightarrow> int \<Rightarrow> (error + int option) option" where
  "wiener_attack e n =
     (case rational_to_contfrac e n of
        None \<Rightarrow> None
      | Some (Inl err) \<Rightarrow> Some (Inl err)
      | Some (Inr frac) \<Rightarrow> wiener_attack_loop e n (convergents_from_contfrac frac))"

section \<open>PKCS\#1 v1.5 padding\<close>

text \<open>\<open>pack("B", byte) == b'\x00'\<close> holds exactly when the byte is zero.\<close>

fun signature_scan :: "byte list \<Rightarrow> bool" where
  "signature_scan [] = False"
| "signature_scan (b # bs) = (if b = 0 then True else signature_scan bs)"

definition is_valid_pkcs_1_5_signature :: "byte list \<Rightarrow> error + bool" where
  "is_valid_pkcs_1_5_signature bytes_array =
     (if length bytes_array < 2 then Inl IndexError
      else if bytes_array ! 0 = 0 \<and> bytes_array ! 1 = 2
           then Inr (signature_scan (drop 2 bytes_array))
           else Inr False)"

text \<open>
  The loop of \<open>extract_message_pkcs_1_5\<close> over \<open>enumerate(bytes_array[2:], start=2 + 1)\<close>;
  \<open>end_byte_pos\<close> keeps its initial value 0 when the loop ends without a \<open>break\<close>.
\<close>

fun extract_scan :: "nat \<Rightarrow> byte list \<Rightarrow> nat" where
  "extract_scan byte_pos [] = 0"
| "extract_scan byte_pos (b # bs) =
     (if b = 0 then byte_pos else extract_scan (Suc byte_pos) bs)"

definition extract_message_pkcs_1_5 :: "byte list \<Rightarrow> byte list" where
  "extract_message_pkcs_1_5 bytes_array =
     drop (extract_scan (2 + 1) (drop 2 bytes_array)) bytes_array"

section \<open>Recursive descriptions used in the proofs\<close>

text \<open>
  Two auxiliary functions, not part of the program: the value of a continued fraction
  by recursion from its head, and the partial quotients of \<open>x / y\<close> by the Euclidean
  recursion. The loops of \<open>_contfrac_to_rational\<close> and \<open>_rational_to_contfrac\<close> are
  proved equal to them below, and no claim is stated in their terms.
\<close>

fun contfrac_value :: "int list \<Rightarrow> int \<times> int" where
  "contfrac_value [] = (0, 1)"
| "contfrac_value [a] = (a, 1)"
| "contfrac_value (a # b # bs) =
     (a * fst (contfrac_value (b # bs)) + snd (contfrac_value (b # bs)),
      fst (contfrac_value (b # bs)))"

function euclid_quotients :: "int \<Rightarrow> int \<Rightarrow> int list" where
  "euclid_quotients x y =
     (if 0 < y \<and> (x div y) * y \<noteq> x
      then (x div y) # euclid_quotients y (x - (x div y) * y)
      else [x div y])"
  by pat_completeness auto
termination
proof (relation "measure (\<lambda>(x, y). nat y)")
  show "wf (measure (\<lambda>(x, y). nat y))" by simp
next
  fix x y :: int
  assume "0 < y \<and> x div y * y \<noteq> x"
  then have "0 < y" by simp
  have "x - x div y * y = x mod y" by (simp add: minus_div_mult_eq_mod)
  moreover have "x mod y < y" using \<open>0 < y\<close> by simp
  moreover have "0 \<le> x mod y" using \<open>0 < y\<close> by simp
  ultimately show "((y, x - x div y * y), (x, y)) \<in> measure (\<lambda>(x, y). nat y)"
    using \<open>0 < y\<close> by simp
qed

declare euclid_quotients.simps [simp del]

section \<open>Properties of the integer square root\<close>

lemma get_bit_length_loop_bound:
  "0 \<le> x \<Longrightarrow> n \<le> get_bit_length_loop n x \<and> x < 2 ^ nat (get_bit_length_loop n x - n)"
proof (induction n x rule: get_bit_length_loop.induct)
  case (1 n x)
  show ?case
  proof (cases "x > 0")
    case True
    have half: "drop_bit 1 x = x div 2" by (simp add: drop_bit_eq_div)
    let ?r = "get_bit_length_loop (n + 1) (x div 2)"
    have r: "get_bit_length_loop n x = ?r"
      using True by (subst get_bit_length_loop.simps) (simp only: half if_True)
    have "0 \<le> x div 2" using True by simp
    from "1.IH" [OF True, unfolded half, OF this]
    have ih: "n + 1 \<le> ?r" "x div 2 < 2 ^ nat (?r - (n + 1))" by blast+
    have "nat (?r - n) = Suc (nat (?r - (n + 1)))" using ih(1) by simp
    then have "(2::int) ^ nat (?r - n) = 2 * 2 ^ nat (?r - (n + 1))" by simp
    moreover have "x < 2 * (x div 2 + 1)" by simp
    moreover have "x div 2 + 1 \<le> 2 ^ nat (?r - (n + 1))" using ih(2) by simp
    ultimately have "x < 2 ^ nat (?r - n)" by linarith
    with ih(1) r show ?thesis by simp
  next
    case False
    with "1.prems" have "x = 0" by simp
    then show ?thesis by (simp add: get_bit_length_loop.simps)
  qed
qed

lemma sqrt_seed:
  assumes "0 \<le> n" and "bl = get_bit_length_loop 0 n"
  shows "n < 2 ^ nat (bl div 2 + bl mod 2) * 2 ^ nat (bl div 2 + bl mod 2)"
proof -
  from get_bit_length_loop_bound [OF assms(1), of 0] assms(2)
  have bl: "0 \<le> bl" "n < 2 ^ nat bl" by simp_all
  define c where "c = bl div 2 + bl mod 2"
  have c0: "0 \<le> c" using bl(1) unfolding c_def by presburger
  have "bl \<le> c + c" unfolding c_def by presburger
  then have "nat bl \<le> nat (c + c)" by (rule nat_mono)
  also have "nat (c + c) = nat c + nat c" using c0 by (simp add: nat_add_distrib)
  finally have "(2::int) ^ nat bl \<le> 2 ^ (nat c + nat c)"
    by (intro power_increasing) simp_all
  with bl(2) show ?thesis unfolding c_def [symmetric] by (simp add: power_add)
qed

lemma newton_done:
  assumes "0 < x" and "x \<le> (x + n div x) div 2"
  shows "x * x \<le> (n::int)"
proof -
  from assms(2) have "x \<le> n div x" by linarith
  then have "x * x \<le> x * (n div x)" using assms(1) by (intro mult_left_mono) simp_all
  also have "x * (n div x) \<le> n"
  proof -
    have "n = x * (n div x) + n mod x" by simp
    moreover have "0 \<le> n mod x" using assms(1) by simp
    ultimately show ?thesis by linarith
  qed
  finally show ?thesis .
qed

lemma newton_step:
  assumes "0 < x" and "0 < (n::int)" and "y = (x + n div x) div 2"
  shows "0 < y \<and> n < (y + 1) * (y + 1)"
proof -
  define q where "q = n div x"
  have q0: "0 \<le> q" unfolding q_def using assms(1,2) by (simp add: pos_imp_zdiv_nonneg_iff)
  have "n = x * q + n mod x" unfolding q_def by simp
  moreover have "n mod x < x" using assms(1) by simp
  ultimately have "n < x * q + x" by linarith
  then have n1: "n < x * (q + 1)" by (simp add: algebra_simps)
  have y2: "x + (q + 1) \<le> 2 * (y + 1)" unfolding assms(3) q_def [symmetric] by presburger
  have "0 \<le> (x - (q + 1)) * (x - (q + 1))" by simp
  then have amgm: "4 * (x * (q + 1)) \<le> (x + (q + 1)) * (x + (q + 1))"
    by (simp add: algebra_simps)
  have "0 \<le> x + (q + 1)" using assms(1) q0 by simp
  with y2 have "(x + (q + 1)) * (x + (q + 1)) \<le> (2 * (y + 1)) * (2 * (y + 1))"
    by (intro mult_mono) simp_all
  with amgm n1 have "4 * n < 4 * ((y + 1) * (y + 1))" by (simp add: algebra_simps)
  then have less: "n < (y + 1) * (y + 1)" by simp
  have "0 \<le> y" unfolding assms(3) q_def [symmetric] using assms(1) q0 by simp
  moreover have "y \<noteq> 0" using less assms(2) by auto
  ultimately show ?thesis using less by simp
qed

lemma get_whole_sqrt_loop_correct:
  "0 < n \<Longrightarrow> 0 < x \<Longrightarrow> n < (x + 1) * (x + 1) \<Longrightarrow>
   \<exists>r. get_whole_sqrt_loop n x = Some (Inr r) \<and> 0 < r \<and> r * r \<le> n \<and> n < (r + 1) * (r + 1)"
proof (induction "nat x" arbitrary: x rule: less_induct)
  case less
  let ?y = "(x + n div x) div 2"
  show ?case
  proof (cases "x \<le> ?y")
    case True
    have "get_whole_sqrt_loop n x = Some (Inr x)"
      using True less.prems(2) by (subst get_whole_sqrt_loop.simps) simp
    moreover have "x * x \<le> n" using less.prems(2) True by (rule newton_done)
    ultimately show ?thesis using less.prems by blast
  next
    case False
    have unf: "get_whole_sqrt_loop n x = get_whole_sqrt_loop n ?y"
      using False less.prems(2) by (subst get_whole_sqrt_loop.simps) simp
    from newton_step [OF less.prems(2) less.prems(1) refl]
    have y: "0 < ?y" "n < (?y + 1) * (?y + 1)" by simp_all
    have "nat ?y < nat x" using False y(1) by linarith
    from less.hyps [OF this less.prems(1) y] unf show ?thesis by simp
  qed
qed

lemma get_whole_sqrt_pos:
  assumes "0 < n"
  shows "\<exists>r. get_whole_sqrt n = Some (Inr r) \<and> 0 < r \<and> r * r \<le> n \<and> n < (r + 1) * (r + 1)"
proof -
  define bl where "bl = get_bit_length_loop 0 n"
  define x where "x = (2::int) ^ nat (bl div 2 + bl mod 2)"
  have n0: "0 \<le> n" using assms by simp
  have x0: "0 < x" unfolding x_def by simp
  have "n < x * x" unfolding x_def using sqrt_seed [OF n0 bl_def] .
  also have "x * x \<le> (x + 1) * (x + 1)" using x0 by (intro mult_mono) simp_all
  finally have seed: "n < (x + 1) * (x + 1)" .
  have "get_whole_sqrt n = get_whole_sqrt_loop n x"
    using assms by (simp add: get_whole_sqrt_def get_bit_length_def Let_def bl_def x_def)
  with get_whole_sqrt_loop_correct [OF assms x0 seed] show ?thesis by simp
qed

lemma get_whole_sqrt_nonneg:
  assumes "0 \<le> x"
  shows "\<exists>r. get_whole_sqrt x = Some (Inr r) \<and> 0 \<le> r \<and> r * r \<le> x \<and> x < (r + 1) * (r + 1)"
proof (cases "x = 0")
  case True
  then show ?thesis by (simp add: get_whole_sqrt_def)
next
  case False
  with assms have "0 < x" by simp
  from get_whole_sqrt_pos [OF this] show ?thesis by force
qed

text \<open>
  Claim C3. For every nonnegative integer \<open>x\<close>, \<open>get_whole_sqrt\<close> returns, without
  raising, the integer \<open>r\<close> with \<open>r * r \<le> x < (r + 1) * (r + 1)\<close>, that is the floor of
  the square root of \<open>x\<close>, however large \<open>x\<close> is; on \<open>0\<close> it returns \<open>0\<close>.
\<close>

theorem get_whole_sqrt_floor:
  "(0 \<le> x \<longrightarrow>
      (\<exists>r. get_whole_sqrt x = Some (Inr r) \<and> 0 \<le> r \<and> r * r \<le> x \<and> x < (r + 1) * (r + 1)))
   \<and> get_whole_sqrt 0 = Some (Inr 0)"
proof (intro conjI impI)
  assume "0 \<le> x"
  then show "\<exists>r. get_whole_sqrt x = Some (Inr r) \<and> 0 \<le> r \<and> r * r \<le> x \<and> x < (r + 1) * (r + 1)"
    by (rule get_whole_sqrt_nonneg)
next
  show "get_whole_sqrt 0 = Some (Inr 0)" by (simp add: get_whole_sqrt_def)
qed

theorem get_whole_sqrt_floor_witness:
  "\<exists>r. get_whole_sqrt 90581 = Some (Inr r) \<and> 0 \<le> r \<and> r * r \<le> 90581 \<and> 90581 < (r + 1) * (r + 1)"
  using get_whole_sqrt_floor [of 90581] by simp

section \<open>Properties of the perfect-square test\<close>

lemma low_nibble_mod: "(n::int) AND 15 = n mod 16"
proof -
  have "(15::int) = mask 4" by (simp add: mask_eq_exp_minus_1)
  then have "n AND 15 = take_bit 4 n" by (simp add: take_bit_eq_mask)
  also have "\<dots> = n mod 16" by (simp add: take_bit_eq_mod)
  finally show ?thesis .
qed

lemma square_mod_16:
  fixes k :: int
  shows "(k * k) mod 16 \<in> {0, 1, 4, 9}"
proof -
  define r where "r = k mod 16"
  have sq: "(k * k) mod 16 = (r * r) mod 16"
    unfolding r_def by (simp add: mod_mult_eq)
  have "0 \<le> r" "r < 16" unfolding r_def by simp_all
  then consider "r = 0" | "r = 1" | "r = 2" | "r = 3" | "r = 4" | "r = 5" | "r = 6" | "r = 7"
    | "r = 8" | "r = 9" | "r = 10" | "r = 11" | "r = 12" | "r = 13" | "r = 14" | "r = 15"
    by atomize_elim presburger
  then show ?thesis by cases (simp_all add: sq)
qed

lemma floor_sqrt_unique:
  fixes r k :: int
  assumes "0 \<le> r" "0 \<le> k" "r * r \<le> k * k" "k * k < (r + 1) * (r + 1)"
  shows "r = k"
proof (rule ccontr)
  assume "r \<noteq> k"
  then consider "r < k" | "k < r" by linarith
  then show False
  proof cases
    case 1
    then have "r + 1 \<le> k" by simp
    then have "(r + 1) * (r + 1) \<le> k * k" using assms(1) by (intro mult_mono) simp_all
    with assms(4) show False by simp
  next
    case 2
    then have "k + 1 \<le> r" by simp
    then have "(k + 1) * (k + 1) \<le> r * r" using assms(2) by (intro mult_mono) simp_all
    moreover have "k * k < (k + 1) * (k + 1)" using assms(2) by (simp add: algebra_simps)
    ultimately show False using assms(3) by simp
  qed
qed

lemma is_perfect_square_of_square:
  assumes "0 \<le> k"
  shows "is_perfect_square (k * k) = Some (Inr (PyInt k))"
proof -
  have n0: "0 \<le> k * k" by simp
  from get_whole_sqrt_nonneg [OF n0] obtain r where
    r: "get_whole_sqrt (k * k) = Some (Inr r)" "0 \<le> r" "r * r \<le> k * k"
       "k * k < (r + 1) * (r + 1)" by blast
  have rk: "r = k" using r(2) assms r(3,4) by (rule floor_sqrt_unique)
  have "(k * k) mod 16 \<in> {0, 1, 4, 9}" by (rule square_mod_16)
  then show ?thesis
    unfolding is_perfect_square_def low_nibble_mod Let_def r(1) rk by auto
qed

lemma is_perfect_square_of_nonsquare:
  assumes "0 \<le> n" and "\<forall>k. k * k \<noteq> n"
  shows "is_perfect_square n = Some (Inr (PyBool False))"
proof -
  from get_whole_sqrt_nonneg [OF assms(1)] obtain r where
    r: "get_whole_sqrt n = Some (Inr r)" by blast
  have "r * r \<noteq> n" using assms(2) by blast
  then show ?thesis
    unfolding is_perfect_square_def Let_def r by simp
qed

lemma seventeen_not_square: "\<forall>k::int. k * k \<noteq> 17"
proof
  fix k :: int
  show "k * k \<noteq> 17"
  proof
    assume e: "k * k = 17"
    have "\<not> 5 \<le> k"
    proof
      assume "5 \<le> k"
      then have "5 * 5 \<le> k * k" by (intro mult_mono) simp_all
      with e show False by simp
    qed
    moreover have "\<not> k \<le> - 5"
    proof
      assume "k \<le> - 5"
      then have "5 * 5 \<le> (- k) * (- k)" by (intro mult_mono) simp_all
      with e show False by simp
    qed
    ultimately consider "k = - 4" | "k = - 3" | "k = - 2" | "k = - 1" | "k = 0"
      | "k = 1" | "k = 2" | "k = 3" | "k = 4" by linarith
    then show False using e by cases simp_all
  qed
qed

text \<open>
  Claim C4. For every nonnegative integer \<open>k\<close>, \<open>is_perfect_square (k * k)\<close> returns the
  root \<open>k\<close>; for every nonnegative integer \<open>n\<close> that is not a perfect square it returns
  \<open>False\<close>, whether the low four bits or the test \<open>t * t == n\<close> rejects it. The
  function returns one Python object: the integer root stands for (true, root) and the
  boolean \<open>False\<close> for (false, 0).
\<close>

theorem is_perfect_square_spec:
  "(0 \<le> k \<longrightarrow> is_perfect_square (k * k) = Some (Inr (PyInt k)))
   \<and> (0 \<le> n \<and> (\<forall>j. j * j \<noteq> n) \<longrightarrow> is_perfect_square n = Some (Inr (PyBool False)))"
  using is_perfect_square_of_square is_perfect_square_of_nonsquare by blast

theorem is_perfect_square_spec_witness:
  "is_perfect_square (140 * 140) = Some (Inr (PyInt 140))
   \<and> is_perfect_square 17 = Some (Inr (PyBool False))"
  using is_perfect_square_spec [of 140 17] seventeen_not_square by simp

section \<open>Properties of the continued-fraction functions\<close>

lemma fold_step_shift:
  fixes a :: int and bs :: "int list"
  assumes "bs \<noteq> []"
  shows "fold (\<lambda>j (num, denom). ((a # bs) ! (length (a # bs) - j) * num + denom, num))
           [2 ..< Suc (length bs)] init
         = fold (\<lambda>j (num, denom). (bs ! (length bs - j) * num + denom, num))
           [2 ..< Suc (length bs)] init"
proof (rule fold_cong)
  fix j assume "j \<in> set [2 ..< Suc (length bs)]"
  then have j: "2 \<le> j" "j \<le> length bs" by auto
  then have "length (a # bs) - j = Suc (length bs - j)" by simp
  then have "(a # bs) ! (length (a # bs) - j) = bs ! (length bs - j)" by simp
  then show "(\<lambda>(num, denom). ((a # bs) ! (length (a # bs) - j) * num + denom, num))
           = (\<lambda>(num, denom). (bs ! (length bs - j) * num + denom, num))" by simp
qed simp_all

lemma contfrac_to_rational_Cons:
  assumes "bs \<noteq> []"
  shows "contfrac_to_rational (a # bs) =
           (a * fst (contfrac_to_rational bs) + snd (contfrac_to_rational bs),
            fst (contfrac_to_rational bs))"
proof -
  let ?f = "\<lambda>j (num, denom). ((a # bs) ! (length (a # bs) - j) * num + denom, num)"
  let ?g = "\<lambda>j (num, denom). (bs ! (length bs - j) * num + denom, num)"
  have len: "1 \<le> length bs" using assms by (cases bs) simp_all
  then have upt: "[2 ..< Suc (length (a # bs))] = [2 ..< Suc (length bs)] @ [Suc (length bs)]"
    by simp
  have bsv: "contfrac_to_rational bs = fold ?g [2 ..< Suc (length bs)] (last bs, 1)"
    using assms by (simp add: contfrac_to_rational_def)
  have "contfrac_to_rational (a # bs) = fold ?f [2 ..< Suc (length (a # bs))] (last (a # bs), 1)"
    by (simp add: contfrac_to_rational_def)
  also have "\<dots> = ?f (Suc (length bs)) (fold ?f [2 ..< Suc (length bs)] (last bs, 1))"
    unfolding upt using assms by simp
  also have "fold ?f [2 ..< Suc (length bs)] (last bs, 1) = contfrac_to_rational bs"
    unfolding bsv by (rule fold_step_shift [OF assms])
  finally show ?thesis by (simp add: case_prod_unfold)
qed

lemma contfrac_to_rational_value: "contfrac_to_rational frac = contfrac_value frac"
proof (induction frac rule: contfrac_value.induct)
  case 1
  show ?case by (simp add: contfrac_to_rational_def)
next
  case (2 a)
  show ?case by (simp add: contfrac_to_rational_def)
next
  case (3 a b bs)
  have "contfrac_to_rational (a # b # bs) =
          (a * fst (contfrac_to_rational (b # bs)) + snd (contfrac_to_rational (b # bs)),
           fst (contfrac_to_rational (b # bs)))"
    by (rule contfrac_to_rational_Cons) simp
  with 3 show ?case by simp
qed


lemma euclid_quotients_hd: "\<exists>rest. euclid_quotients x y = (x div y) # rest"
  by (subst euclid_quotients.simps) simp

lemma rational_to_contfrac_loop_eq:
  "0 < y \<Longrightarrow>
   rational_to_contfrac_loop x y (x div y) pq = Some (Inr (pq @ tl (euclid_quotients x y)))"
proof (induction x y arbitrary: pq rule: euclid_quotients.induct)
  case (1 x y)
  let ?r = "x - (x div y) * y"
  show ?case
  proof (cases "(x div y) * y \<noteq> x")
    case True
    have r: "?r = x mod y" by (simp add: minus_div_mult_eq_mod)
    have r0: "?r \<noteq> 0" using True by simp
    have "0 \<le> x mod y" using "1.prems" by simp
    then have rpos: "0 < ?r" using r0 r by linarith
    obtain rest where rest: "euclid_quotients y ?r = (y div ?r) # rest"
      using euclid_quotients_hd by blast
    have eq: "euclid_quotients x y = (x div y) # euclid_quotients y ?r"
      using True "1.prems" by (subst euclid_quotients.simps) simp
    have "rational_to_contfrac_loop x y (x div y) pq
            = rational_to_contfrac_loop y ?r (y div ?r) (pq @ [y div ?r])"
      using True r0 by (subst rational_to_contfrac_loop.simps) simp
    also have "\<dots> = Some (Inr ((pq @ [y div ?r]) @ tl (euclid_quotients y ?r)))"
      using "1.IH" [OF _ rpos] True "1.prems" by simp
    also have "(pq @ [y div ?r]) @ tl (euclid_quotients y ?r) = pq @ tl (euclid_quotients x y)"
      unfolding eq rest by simp
    finally show ?thesis .
  next
    case False
    then have "euclid_quotients x y = [x div y]"
      by (subst euclid_quotients.simps) simp
    moreover have "rational_to_contfrac_loop x y (x div y) pq = Some (Inr pq)"
      using False by (subst rational_to_contfrac_loop.simps) simp
    ultimately show ?thesis by simp
  qed
qed

lemma rational_to_contfrac_eq:
  assumes "0 < y"
  shows "rational_to_contfrac x y = Some (Inr (euclid_quotients x y))"
proof -
  obtain rest where rest: "euclid_quotients x y = (x div y) # rest"
    using euclid_quotients_hd by blast
  have "rational_to_contfrac x y = rational_to_contfrac_loop x y (x div y) [x div y]"
    using assms by (simp add: rational_to_contfrac_def)
  also have "\<dots> = Some (Inr ([x div y] @ tl (euclid_quotients x y)))"
    using assms by (rule rational_to_contfrac_loop_eq)
  finally show ?thesis unfolding rest by simp
qed

lemma contfrac_value_Cons:
  "bs \<noteq> [] \<Longrightarrow> contfrac_value (a # bs) =
     (a * fst (contfrac_value bs) + snd (contfrac_value bs), fst (contfrac_value bs))"
  by (cases bs) simp_all

lemma euclid_quotients_value:
  "0 < y \<Longrightarrow> 0 \<le> x \<Longrightarrow>
   fst (contfrac_value (euclid_quotients x y)) * y = snd (contfrac_value (euclid_quotients x y)) * x
   \<and> gcd (fst (contfrac_value (euclid_quotients x y))) (snd (contfrac_value (euclid_quotients x y))) = 1
   \<and> 0 \<le> fst (contfrac_value (euclid_quotients x y))
   \<and> (0 < x \<longrightarrow> 0 < fst (contfrac_value (euclid_quotients x y)))
   \<and> 0 < snd (contfrac_value (euclid_quotients x y))"
proof (induction x y rule: euclid_quotients.induct)
  case (1 x y)
  let ?a = "x div y"
  let ?r = "x - ?a * y"
  show ?case
  proof (cases "?a * y \<noteq> x")
    case True
    have r: "?r = x mod y" by (simp add: minus_div_mult_eq_mod)
    have r0: "?r \<noteq> 0" using True by simp
    have "0 \<le> x mod y" using "1.prems" by simp
    then have rpos: "0 < ?r" using r0 r by linarith
    have a0: "0 \<le> ?a" using "1.prems" by (simp add: pos_imp_zdiv_nonneg_iff)
    have eq: "euclid_quotients x y = ?a # euclid_quotients y ?r"
      using True "1.prems" by (subst euclid_quotients.simps) simp
    have ne: "euclid_quotients y ?r \<noteq> []"
      using euclid_quotients_hd [of y ?r] by auto
    define p where "p = fst (contfrac_value (euclid_quotients y ?r))"
    define q where "q = snd (contfrac_value (euclid_quotients y ?r))"
    have y0: "0 \<le> y" using "1.prems" by simp
    from "1.IH" [OF _ rpos y0] True "1.prems"
    have ih: "p * ?r = q * y" "gcd p q = 1" "0 < p" "0 < q"
      unfolding p_def q_def by simp_all
    have v: "contfrac_value (euclid_quotients x y) = (?a * p + q, p)"
      unfolding eq p_def q_def by (rule contfrac_value_Cons [OF ne])
    have "(?a * p + q) * y = p * x"
    proof -
      have "p * x = p * (?a * y + ?r)" by simp
      also have "\<dots> = ?a * p * y + p * ?r" by (simp add: algebra_simps)
      also have "\<dots> = ?a * p * y + q * y" using ih(1) by simp
      finally show ?thesis by (simp add: algebra_simps)
    qed
    moreover have "gcd (?a * p + q) p = 1"
    proof -
      have "gcd (?a * p + q) p = gcd p (?a * p + q)" by (rule gcd.commute)
      also have "\<dots> = gcd p q" by (rule gcd_add_mult)
      finally show ?thesis using ih(2) by simp
    qed
    moreover have "0 < ?a * p + q"
    proof -
      have "0 \<le> ?a * p" using a0 ih(3) by simp
      with ih(4) show ?thesis by linarith
    qed
    ultimately show ?thesis unfolding v using ih(3) by simp
  next
    case False
    then have eq: "euclid_quotients x y = [?a]"
      by (subst euclid_quotients.simps) simp
    have a0: "0 \<le> ?a" using "1.prems" by (simp add: pos_imp_zdiv_nonneg_iff)
    have "0 < x \<longrightarrow> 0 < ?a"
    proof
      assume "0 < x"
      have "?a \<noteq> 0" using False \<open>0 < x\<close> by auto
      with a0 show "0 < ?a" by simp
    qed
    then show ?thesis unfolding eq using False a0 by simp
  qed
qed


lemma euclid_quotients_length:
  "0 < y \<Longrightarrow>
   2 ^ ((length (euclid_quotients x y) - 1) div 2) \<le> y
   \<and> (y \<le> x \<longrightarrow> 2 ^ (length (euclid_quotients x y) div 2) \<le> x)"
proof (induction x y rule: euclid_quotients.induct)
  case (1 x y)
  let ?a = "x div y"
  let ?r = "x - ?a * y"
  show ?case
  proof (cases "?a * y \<noteq> x")
    case True
    have r: "?r = x mod y" by (simp add: minus_div_mult_eq_mod)
    have r0: "?r \<noteq> 0" using True by simp
    have "0 \<le> x mod y" using "1.prems" by simp
    then have rpos: "0 < ?r" using r0 r by linarith
    have rlt: "?r < y" unfolding r using "1.prems" by simp
    have eq: "euclid_quotients x y = ?a # euclid_quotients y ?r"
      using True "1.prems" by (subst euclid_quotients.simps) simp
    define l where "l = length (euclid_quotients y ?r)"
    have l1: "1 \<le> l" unfolding l_def using euclid_quotients_hd [of y ?r] by auto
    from "1.IH" [OF _ rpos] True "1.prems" rlt
    have ih: "2 ^ ((l - 1) div 2) \<le> ?r" "2 ^ (l div 2) \<le> y"
      unfolding l_def by simp_all
    have len: "length (euclid_quotients x y) = Suc l" unfolding eq l_def by simp
    have A: "2 ^ ((Suc l - 1) div 2) \<le> y" using ih(2) by simp
    have B: "y \<le> x \<longrightarrow> 2 ^ (Suc l div 2) \<le> x"
    proof
      assume "y \<le> x"
      then have "0 < ?a" using "1.prems" by (simp add: pos_imp_zdiv_pos_iff)
      then have "1 \<le> ?a" by simp
      then have "y * 1 \<le> y * ?a" using "1.prems" by (intro mult_left_mono) simp_all
      then have xy: "y + ?r \<le> x" by (simp add: algebra_simps)
      have "(l - 1) div 2 \<le> l div 2" by (intro div_le_mono) simp
      then have "(2::int) ^ ((l - 1) div 2) \<le> 2 ^ (l div 2)"
        by (intro power_increasing) simp_all
      with ih have two: "2 * 2 ^ ((l - 1) div 2) \<le> y + ?r" by linarith
      have "Suc l div 2 = Suc ((l - 1) div 2)" using l1 by presburger
      then have "(2::int) ^ (Suc l div 2) = 2 * 2 ^ ((l - 1) div 2)" by simp
      with two xy show "2 ^ (Suc l div 2) \<le> x" by linarith
    qed
    from A B show ?thesis unfolding len by blast
  next
    case False
    then have eq: "euclid_quotients x y = [?a]"
      by (subst euclid_quotients.simps) simp
    show ?thesis unfolding eq using "1.prems" by auto
  qed
qed

section \<open>Round trip, termination and the attack\<close>

lemma reduced_form:
  fixes p q x y :: int
  assumes "p * y = q * x" "gcd p q = 1" "0 < q" "0 < y"
  shows "p = x div gcd x y \<and> q = y div gcd x y"
proof -
  have cop: "coprime q p" using assms(2) by (simp add: coprime_iff_gcd_eq_1 gcd.commute)
  have "q dvd p * y" using assms(1) by simp
  then have "q dvd y" using cop by (simp add: coprime_dvd_mult_right_iff)
  then obtain g where g: "y = q * g" by (rule dvdE)
  have gpos: "0 < g" using assms(3,4) g by (simp add: zero_less_mult_iff)
  have "q * x = p * y" by (simp add: assms(1))
  also have "\<dots> = p * (q * g)" by (simp add: g)
  also have "\<dots> = q * (p * g)" by (simp add: algebra_simps)
  finally have "q * x = q * (p * g)" .
  then have x: "x = p * g" using assms(3) by simp
  have "gcd x y = gcd (g * p) (g * q)" unfolding x g by (simp add: mult.commute)
  also have "\<dots> = \<bar>g\<bar> * gcd p q" by (rule gcd_mult_distrib_int [symmetric])
  finally have gg: "gcd x y = g" using assms(2) gpos by simp
  show ?thesis unfolding gg using x g gpos by simp
qed

text \<open>
  Claim C5. For all positive integers \<open>x\<close> and \<open>y\<close>, \<open>_rational_to_contfrac\<close> returns a
  sequence of partial quotients, and \<open>_contfrac_to_rational\<close> of that whole sequence is a
  pair \<open>(p, q)\<close> with \<open>p * y = q * x\<close> and \<open>gcd p q = 1\<close>: it is \<open>x / y\<close> in reduced
  form, \<open>p = x div gcd x y\<close> and \<open>q = y div gcd x y\<close>.
\<close>

theorem rational_contfrac_roundtrip:
  assumes "0 < x" and "0 < y"
  shows "\<exists>frac p q. rational_to_contfrac x y = Some (Inr frac)
           \<and> contfrac_to_rational frac = (p, q)
           \<and> p * y = q * x \<and> gcd p q = 1
           \<and> p = x div gcd x y \<and> q = y div gcd x y"
proof -
  let ?frac = "euclid_quotients x y"
  let ?p = "fst (contfrac_value ?frac)"
  let ?q = "snd (contfrac_value ?frac)"
  have x0: "0 \<le> x" using assms(1) by simp
  from euclid_quotients_value [OF assms(2) x0]
  have v: "?p * y = ?q * x" "gcd ?p ?q = 1" "0 < ?q" by simp_all
  have r: "rational_to_contfrac x y = Some (Inr ?frac)"
    using assms(2) by (rule rational_to_contfrac_eq)
  have c: "contfrac_to_rational ?frac = (?p, ?q)"
    by (simp add: contfrac_to_rational_value)
  have red: "?p = x div gcd x y \<and> ?q = y div gcd x y"
    using v assms(2) by (rule reduced_form)
  have main: "rational_to_contfrac x y = Some (Inr ?frac)
           \<and> contfrac_to_rational ?frac = (?p, ?q)
           \<and> ?p * y = ?q * x \<and> gcd ?p ?q = 1
           \<and> ?p = x div gcd x y \<and> ?q = y div gcd x y"
    by (intro conjI r c v(1) v(2) conjunct1 [OF red] conjunct2 [OF red])
  show ?thesis
    by (rule exI [where x = ?frac], rule exI [where x = ?p], rule exI [where x = ?q])
       (rule main)
qed

theorem rational_contfrac_roundtrip_witness:
  "\<exists>frac p q. rational_to_contfrac 6 4 = Some (Inr frac)
     \<and> contfrac_to_rational frac = (p, q)
     \<and> p * 4 = q * 6 \<and> gcd p q = 1
     \<and> p = 6 div gcd 6 4 \<and> q = 4 div gcd 6 4"
proof -
  have a: "(0::int) < 6" and b: "(0::int) < 4" by simp_all
  show ?thesis by (rule rational_contfrac_roundtrip [OF a b])
qed

lemma is_perfect_square_total:
  assumes "0 \<le> n"
  shows "\<exists>v. is_perfect_square n = Some (Inr v)"
proof -
  from get_whole_sqrt_nonneg [OF assms] obtain r where
    r: "get_whole_sqrt n = Some (Inr r)" by blast
  show ?thesis unfolding is_perfect_square_def Let_def r by simp
qed

lemma wiener_attack_loop_total:
  "\<exists>res. wiener_attack_loop e n cs = Some (Inr res)"
proof (induction cs)
  case Nil
  show ?case by simp
next
  case (Cons c cs)
  obtain k d where c: "c = (k, d)" by (cases c)
  define s where "s = n - (e * d - 1) div k + 1"
  define discr where "discr = s * s - 4 * n"
  show ?case
  proof (cases "k \<noteq> 0 \<and> (e * d - 1) mod k = 0")
    case False
    have "wiener_attack_loop e n ((k, d) # cs) = wiener_attack_loop e n cs"
      by (subst wiener_attack_loop.simps) (simp only: False if_False)
    then show ?thesis using Cons.IH unfolding c by simp
  next
    case guard: True
    show ?thesis
    proof (cases "0 \<le> discr")
      case False
      then show ?thesis using Cons.IH guard unfolding c discr_def s_def
        by (simp add: Let_def)
    next
      case True
      from is_perfect_square_total [OF True] obtain v where
        v: "is_perfect_square discr = Some (Inr v)" by blast
      have "wiener_attack_loop e n ((k, d) # cs) =
              (if truthy v \<and> (s + int_of_pyval v) mod 2 = 0 then Some (Inr (Some d))
               else wiener_attack_loop e n cs)"
        using guard True v unfolding discr_def s_def by (simp add: Let_def)
      then show ?thesis using Cons.IH unfolding c by (cases "truthy v \<and> (s + int_of_pyval v) mod 2 = 0") simp_all
    qed
  qed
qed

lemma wiener_attack_total:
  assumes "0 < n"
  shows "\<exists>res. wiener_attack e n = Some (Inr res)"
proof -
  have "rational_to_contfrac e n = Some (Inr (euclid_quotients e n))"
    using assms by (rule rational_to_contfrac_eq)
  then have "wiener_attack e n =
      wiener_attack_loop e n (convergents_from_contfrac (euclid_quotients e n))"
    by (simp add: wiener_attack_def)
  then show ?thesis using wiener_attack_loop_total by simp
qed

text \<open>
  Claim C9. The loops terminate on their valid domain: \<open>get_whole_sqrt\<close> returns for
  every nonnegative \<open>n\<close>; \<open>_rational_to_contfrac\<close> returns for every nonnegative \<open>x\<close>
  and positive \<open>y\<close>, with a number of partial quotients that is logarithmic in \<open>y\<close>
  (\<open>2 ^ ((len - 1) div 2) \<le> y\<close>); and \<open>wiener_attack\<close> returns for every nonnegative
  \<open>e\<close> and positive modulus. Not returning is the value \<open>None\<close> of the model, and a
  raised exception is \<open>Some (Inl _)\<close>, so each part states a normal return.
\<close>

theorem core_loops_terminate:
  "(0 \<le> n \<longrightarrow> (\<exists>r. get_whole_sqrt n = Some (Inr r)))
   \<and> (0 \<le> x \<and> 0 < y \<longrightarrow>
        (\<exists>frac. rational_to_contfrac x y = Some (Inr frac) \<and> frac \<noteq> []
           \<and> 2 ^ ((length frac - 1) div 2) \<le> y))
   \<and> (0 \<le> e \<and> 0 < m \<longrightarrow> (\<exists>res. wiener_attack e m = Some (Inr res)))"
proof (intro conjI impI)
  assume "0 \<le> n"
  from get_whole_sqrt_nonneg [OF this] show "\<exists>r. get_whole_sqrt n = Some (Inr r)" by blast
next
  assume "0 \<le> x \<and> 0 < y"
  then have y: "0 < y" by simp
  have "rational_to_contfrac x y = Some (Inr (euclid_quotients x y))"
    using y by (rule rational_to_contfrac_eq)
  moreover have "euclid_quotients x y \<noteq> []"
    using euclid_quotients_hd [of x y] by auto
  moreover have "2 ^ ((length (euclid_quotients x y) - 1) div 2) \<le> y"
    using euclid_quotients_length [OF y] by blast
  ultimately show "\<exists>frac. rational_to_contfrac x y = Some (Inr frac) \<and> frac \<noteq> []
           \<and> 2 ^ ((length frac - 1) div 2) \<le> y" by blast
next
  assume "0 \<le> e \<and> 0 < m"
  then have "0 < m" by simp
  then show "\<exists>res. wiener_attack e m = Some (Inr res)" by (rule wiener_attack_total)
qed

theorem core_loops_terminate_witness:
  "(\<exists>r. get_whole_sqrt 19600 = Some (Inr r))
   \<and> (\<exists>frac. rational_to_contfrac 17993 90581 = Some (Inr frac) \<and> frac \<noteq> []
           \<and> 2 ^ ((length frac - 1) div 2) \<le> (90581::int))
   \<and> (\<exists>res. wiener_attack 17993 90581 = Some (Inr res))"
  using core_loops_terminate [of 19600 17993 90581 17993 90581] by simp

text \<open>
  Claim C2. \<open>wiener_attack\<close> on \<open>e = 17993\<close>, \<open>n = 90581\<close> returns \<open>5\<close>, the denominator
  of the convergent \<open>(1, 5)\<close> of the continued fraction of \<open>17993 / 90581\<close>, and
  \<open>17993 * 5 mod 89964 = 1\<close>, where \<open>90581 = 239 * 379\<close> and \<open>89964 = 238 * 378\<close>.
\<close>

theorem wiener_attack_toy_example:
  "wiener_attack 17993 90581 = Some (Inr (Some 5))
   \<and> rational_to_contfrac 17993 90581 = Some (Inr [0, 5, 29, 4, 1, 3, 2, 4, 3])
   \<and> (1, 5) \<in> set (convergents_from_contfrac [0, 5, 29, 4, 1, 3, 2, 4, 3])
   \<and> (239 * 379 = (90581::int)) \<and> ((239 - 1) * (379 - 1) = (89964::int))
   \<and> (17993 * 5) mod 89964 = (1::int)"
proof (intro conjI)
  show "wiener_attack 17993 90581 = Some (Inr (Some 5))" by code_simp
  show "rational_to_contfrac 17993 90581 = Some (Inr [0, 5, 29, 4, 1, 3, 2, 4, 3])"
    by code_simp
  show "(1, 5) \<in> set (convergents_from_contfrac [0, 5, 29, 4, 1, 3, 2, 4, 3])"
    by code_simp
qed simp_all

text \<open>
  What the loop of \<open>wiener_attack\<close> computes in general: the denominator of the first
  convergent of the list, in list order, whose discriminant is the square of a positive
  integer \<open>t\<close> with \<open>s + t\<close> even. A discriminant equal to zero never matches.
\<close>

lemma positive_root_unique:
  fixes t k :: int
  assumes "0 < t" "0 \<le> k" "t * t = k * k"
  shows "t = k"
proof -
  have "t * t \<le> k * k" using assms(3) by simp
  moreover have "k * k < (t + 1) * (t + 1)"
    unfolding assms(3) [symmetric] using assms(1) by (simp add: algebra_simps)
  moreover have "0 \<le> t" using assms(1) by simp
  ultimately show ?thesis using assms(2) by (intro floor_sqrt_unique)
qed

lemma is_perfect_square_truthy:
  assumes "0 \<le> discr"
  shows "\<exists>v. is_perfect_square discr = Some (Inr v)
           \<and> ((truthy v \<and> (s + int_of_pyval v) mod 2 = 0)
                \<longleftrightarrow> (\<exists>t. 0 < t \<and> t * t = discr \<and> (s + t) mod 2 = 0))"
proof (cases "\<exists>j. j * j = discr")
  case True
  then obtain j where j: "j * j = discr" by (elim exE)
  define k where "k = \<bar>j\<bar>"
  have k0: "0 \<le> k" and kk: "k * k = discr" unfolding k_def using j by simp_all
  have v: "is_perfect_square discr = Some (Inr (PyInt k))"
    unfolding kk [symmetric] using k0 by (rule is_perfect_square_of_square)
  have "(k \<noteq> 0 \<and> (s + k) mod 2 = 0) \<longleftrightarrow> (\<exists>t. 0 < t \<and> t * t = discr \<and> (s + t) mod 2 = 0)"
  proof
    assume "k \<noteq> 0 \<and> (s + k) mod 2 = 0"
    then have "0 < k \<and> k * k = discr \<and> (s + k) mod 2 = 0" using k0 kk by simp
    then show "\<exists>t. 0 < t \<and> t * t = discr \<and> (s + t) mod 2 = 0" by (rule exI)
  next
    assume "\<exists>t. 0 < t \<and> t * t = discr \<and> (s + t) mod 2 = 0"
    then obtain t where t: "0 < t" "t * t = discr" "(s + t) mod 2 = 0"
      by (elim exE conjE)
    have "t * t = k * k" using t(2) kk by (rule trans [OF _ sym])
    with t(1) k0 have tk: "t = k" by (rule positive_root_unique)
    have "0 < k" using t(1) unfolding tk .
    moreover have "(s + k) mod 2 = 0" using t(3) unfolding tk .
    ultimately show "k \<noteq> 0 \<and> (s + k) mod 2 = 0" by simp
  qed
  then have "is_perfect_square discr = Some (Inr (PyInt k))
           \<and> ((truthy (PyInt k) \<and> (s + int_of_pyval (PyInt k)) mod 2 = 0)
                \<longleftrightarrow> (\<exists>t. 0 < t \<and> t * t = discr \<and> (s + t) mod 2 = 0))"
    using v by simp
  then show ?thesis by (rule exI)
next
  case False
  have ns: "\<forall>j. j * j \<noteq> discr" using False by simp
  have v: "is_perfect_square discr = Some (Inr (PyBool False))"
    using assms ns by (rule is_perfect_square_of_nonsquare)
  have "\<not> (\<exists>t. 0 < t \<and> t * t = discr \<and> (s + t) mod 2 = 0)"
  proof
    assume "\<exists>t. 0 < t \<and> t * t = discr \<and> (s + t) mod 2 = 0"
    then obtain t where "t * t = discr" by (elim exE conjE)
    with ns show False by simp
  qed
  then have "is_perfect_square discr = Some (Inr (PyBool False))
           \<and> ((truthy (PyBool False) \<and> (s + int_of_pyval (PyBool False)) mod 2 = 0)
                \<longleftrightarrow> (\<exists>t. 0 < t \<and> t * t = discr \<and> (s + t) mod 2 = 0))"
    using v by simp
  then show ?thesis by (rule exI)
qed

lemma wiener_attack_loop_first_match:
  "wiener_attack_loop e n cs =
     Some (Inr (map_option snd (find (\<lambda>(k, d). k \<noteq> 0 \<and> (e * d - 1) mod k = 0
        \<and> (\<exists>t. 0 < t \<and> t * t = (n - (e * d - 1) div k + 1) * (n - (e * d - 1) div k + 1) - 4 * n
               \<and> ((n - (e * d - 1) div k + 1) + t) mod 2 = 0)) cs)))"
  (is "_ = Some (Inr (map_option snd (find ?P cs)))")
proof (induction cs)
  case Nil
  show ?case by simp
next
  case (Cons c cs)
  obtain k d where c: "c = (k, d)" by (cases c)
  define s where "s = n - (e * d - 1) div k + 1"
  define discr where "discr = s * s - 4 * n"
  define Q where "Q \<longleftrightarrow> (\<exists>t. 0 < t \<and> t * t = discr \<and> (s + t) mod 2 = 0)"
  have P: "?P (k, d) \<longleftrightarrow> (k \<noteq> 0 \<and> (e * d - 1) mod k = 0 \<and> Q)"
    unfolding Q_def discr_def s_def by (simp only: case_prod_conv)
  have skip: "\<not> ?P (k, d) \<Longrightarrow>
      wiener_attack_loop e n ((k, d) # cs) = wiener_attack_loop e n cs \<Longrightarrow> ?case"
  proof -
    assume np: "\<not> ?P (k, d)"
      and eq: "wiener_attack_loop e n ((k, d) # cs) = wiener_attack_loop e n cs"
    have "find ?P ((k, d) # cs) = find ?P cs" using np by (simp only: find.simps if_False)
    then show ?case unfolding c eq using Cons.IH by (simp only:)
  qed
  show ?case
  proof (cases "k \<noteq> 0 \<and> (e * d - 1) mod k = 0")
    case False
    have "wiener_attack_loop e n ((k, d) # cs) = wiener_attack_loop e n cs"
      by (subst wiener_attack_loop.simps) (simp only: False if_False)
    moreover have "\<not> ?P (k, d)"
    proof
      assume "?P (k, d)"
      then have "k \<noteq> 0 \<and> (e * d - 1) mod k = 0"
        unfolding P by (elim conjE) (intro conjI)
      with False show False by (rule notE)
    qed
    ultimately show ?thesis by (intro skip)
  next
    case guard: True
    show ?thesis
    proof (cases "0 \<le> discr")
      case False
      have "wiener_attack_loop e n ((k, d) # cs) = wiener_attack_loop e n cs"
        using False guard unfolding discr_def s_def by (simp add: Let_def)
      moreover have "\<not> Q"
      proof
        assume Q
        then obtain t where "t * t = discr" unfolding Q_def by (elim exE conjE)
        moreover have "0 \<le> t * t" by simp
        ultimately show False using False by simp
      qed
      then have "\<not> ?P (k, d)" unfolding P by (intro notI, elim conjE notE)
      ultimately show ?thesis by (intro skip)
    next
      case True
      from is_perfect_square_truthy [OF True, of s] obtain v where
        v: "is_perfect_square discr = Some (Inr v)"
        and iff: "(truthy v \<and> (s + int_of_pyval v) mod 2 = 0) \<longleftrightarrow> Q"
        unfolding Q_def by (elim exE conjE)
      have step: "wiener_attack_loop e n ((k, d) # cs) =
              (if truthy v \<and> (s + int_of_pyval v) mod 2 = 0 then Some (Inr (Some d))
               else wiener_attack_loop e n cs)"
        using guard True v unfolding discr_def s_def by (simp add: Let_def)
      show ?thesis
      proof (cases Q)
        case True
        then have "?P (k, d)"
          unfolding P by (intro conjI conjunct1 [OF guard] conjunct2 [OF guard])
        then have f: "find ?P ((k, d) # cs) = Some (k, d)" by (simp only: find.simps if_True)
        have yes: "truthy v \<and> (s + int_of_pyval v) mod 2 = 0"
          unfolding iff by (rule True)
        have "wiener_attack_loop e n ((k, d) # cs) = Some (Inr (Some d))"
          unfolding step using yes by simp
        then show ?thesis unfolding c f by simp
      next
        case False
        then have np: "\<not> ?P (k, d)" unfolding P by (intro notI, elim conjE notE)
        have no: "\<not> (truthy v \<and> (s + int_of_pyval v) mod 2 = 0)"
          unfolding iff by (rule False)
        have "wiener_attack_loop e n ((k, d) # cs) = wiener_attack_loop e n cs"
          unfolding step by (simp only: no if_False)
        with np show ?thesis by (intro skip)
      qed
    qed
  qed
qed


lemma wiener_attack_first_match:
  assumes "0 < n"
  shows "\<exists>frac. rational_to_contfrac e n = Some (Inr frac)
     \<and> wiener_attack e n =
       Some (Inr (map_option snd (find (\<lambda>(k, d). k \<noteq> 0 \<and> (e * d - 1) mod k = 0
        \<and> (\<exists>t. 0 < t \<and> t * t = (n - (e * d - 1) div k + 1) * (n - (e * d - 1) div k + 1) - 4 * n
               \<and> ((n - (e * d - 1) div k + 1) + t) mod 2 = 0))
          (convergents_from_contfrac frac))))"
proof -
  have r: "rational_to_contfrac e n = Some (Inr (euclid_quotients e n))"
    using assms by (rule rational_to_contfrac_eq)
  have "wiener_attack e n =
      wiener_attack_loop e n (convergents_from_contfrac (euclid_quotients e n))"
    unfolding wiener_attack_def r by simp
  then have w: "wiener_attack e n =
       Some (Inr (map_option snd (find (\<lambda>(k, d). k \<noteq> 0 \<and> (e * d - 1) mod k = 0
        \<and> (\<exists>t. 0 < t \<and> t * t = (n - (e * d - 1) div k + 1) * (n - (e * d - 1) div k + 1) - 4 * n
               \<and> ((n - (e * d - 1) div k + 1) + t) mod 2 = 0))
          (convergents_from_contfrac (euclid_quotients e n)))))"
    by (simp only: wiener_attack_loop_first_match)
  show ?thesis by (rule exI [where x = "euclid_quotients e n"]) (intro conjI r w)
qed

lemma convergents_from_contfrac_length:
  "length (convergents_from_contfrac frac) = length frac"
  by (simp add: convergents_from_contfrac_def)

lemma convergents_from_contfrac_nth:
  "i < length frac \<Longrightarrow> convergents_from_contfrac frac ! i = contfrac_to_rational (take i frac)"
  by (simp add: convergents_from_contfrac_def)

text \<open>
  Claim C6, evaluated at the partial quotients \<open>[0, 5]\<close> of \<open>1 / 5\<close>:
  \<open>_convergents_from_contfrac\<close> returns the two entries for the prefixes of length 0
  and 1, both \<open>(0, 1)\<close>; it has as many entries as there are partial quotients, not one
  more, and the value \<open>(1, 5)\<close> of the whole sequence is not among them.
\<close>

theorem convergents_drop_last_prefix:
  "rational_to_contfrac 1 5 = Some (Inr [0, 5])
   \<and> convergents_from_contfrac [0, 5] = [(0, 1), (0, 1)]
   \<and> length (convergents_from_contfrac [0, 5]) = length [0, 5 :: int]
   \<and> contfrac_to_rational (take (length [0, 5 :: int]) [0, 5]) = (1, 5)
   \<and> (1, 5) \<notin> set (convergents_from_contfrac [0, 5])"
proof (intro conjI)
  show "rational_to_contfrac 1 5 = Some (Inr [0, 5])" by code_simp
  show "convergents_from_contfrac [0, 5] = [(0, 1), (0, 1)]" by code_simp
  show "length (convergents_from_contfrac [0, 5]) = length [0, 5 :: int]" by code_simp
  show "contfrac_to_rational (take (length [0, 5 :: int]) [0, 5]) = (1, 5)" by code_simp
  show "(1, 5) \<notin> set (convergents_from_contfrac [0, 5])" by code_simp
qed

text \<open>
  Claim C1, evaluated at \<open>e = 5\<close>, \<open>n = 9\<close>: the convergent \<open>(k, d) = (1, 1)\<close> is in the
  list, \<open>k \<noteq> 0\<close>, \<open>(e * d - 1) mod k = 0\<close>, the discriminant is \<open>0\<close>, which
  \<open>is_perfect_square\<close> reports as a square with root \<open>0\<close>, and \<open>s + 0\<close> is even; yet
  \<open>wiener_attack\<close> returns nothing, because the truth test on the root \<open>0\<close> fails.
\<close>

theorem wiener_attack_zero_discriminant:
  "rational_to_contfrac 5 9 = Some (Inr [0, 1, 1, 4])
   \<and> convergents_from_contfrac [0, 1, 1, 4] = [(0, 1), (0, 1), (1, 1), (1, 2)]
   \<and> (1::int) \<noteq> 0 \<and> (5 * 1 - 1) mod 1 = (0::int)
   \<and> (9 - (5 * 1 - 1) div 1 + 1) * (9 - (5 * 1 - 1) div 1 + 1) - 4 * 9 = (0::int)
   \<and> is_perfect_square 0 = Some (Inr (PyInt 0))
   \<and> ((9 - (5 * 1 - 1) div 1 + 1) + 0) mod 2 = (0::int)
   \<and> wiener_attack 5 9 = Some (Inr None)"
proof (intro conjI)
  show "rational_to_contfrac 5 9 = Some (Inr [0, 1, 1, 4])" by code_simp
  show "convergents_from_contfrac [0, 1, 1, 4] = [(0, 1), (0, 1), (1, 1), (1, 2)]"
    by code_simp
  show "is_perfect_square 0 = Some (Inr (PyInt 0))" by code_simp
  show "wiener_attack 5 9 = Some (Inr None)" by code_simp
qed simp_all

section \<open>Properties of the padding functions\<close>

lemma signature_scan_iff: "signature_scan bs \<longleftrightarrow> 0 \<in> set bs"
  by (induction bs) auto

lemma extract_scan_found:
  "i < length bs \<Longrightarrow> bs ! i = 0 \<Longrightarrow> (\<forall>j<i. bs ! j \<noteq> 0) \<Longrightarrow> extract_scan p bs = p + i"
proof (induction bs arbitrary: p i)
  case Nil
  then show ?case by simp
next
  case (Cons b bs)
  show ?case
  proof (cases i)
    case 0
    with Cons.prems show ?thesis by simp
  next
    case (Suc k)
    with Cons.prems have b: "b \<noteq> 0" by auto
    have k: "k < length bs" "bs ! k = 0" using Cons.prems Suc by auto
    have "\<forall>j<k. bs ! j \<noteq> 0"
    proof (intro allI impI)
      fix j assume "j < k"
      then have "Suc j < i" using Suc by simp
      with Cons.prems(3) have "(b # bs) ! Suc j \<noteq> 0" by blast
      then show "bs ! j \<noteq> 0" by simp
    qed
    with Cons.IH [OF k] have "extract_scan (Suc p) bs = Suc p + k" by blast
    with b Suc show ?thesis by simp
  qed
qed

lemma extract_scan_none:
  "(\<forall>i<length bs. bs ! i \<noteq> 0) \<Longrightarrow> extract_scan p bs = 0"
proof (induction bs arbitrary: p)
  case Nil
  then show ?case by simp
next
  case (Cons b bs)
  from Cons.prems have "b \<noteq> 0" by auto
  moreover have "\<forall>i<length bs. bs ! i \<noteq> 0"
  proof (intro allI impI)
    fix i assume "i < length bs"
    then have "Suc i < length (b # bs)" by simp
    with Cons.prems have "(b # bs) ! Suc i \<noteq> 0" by blast
    then show "bs ! i \<noteq> 0" by simp
  qed
  ultimately show ?case using Cons.IH by simp
qed

lemma drop2_zero_iff:
  "0 \<in> set (drop 2 block) \<longleftrightarrow>
     (\<exists>i. 2 \<le> i \<and> i < length block \<and> block ! i = (0::byte))"
proof
  assume "0 \<in> set (drop 2 block)"
  then obtain i where i: "i < length (drop 2 block)" "drop 2 block ! i = 0"
    by (auto simp: in_set_conv_nth)
  then have "2 \<le> 2 + i \<and> 2 + i < length block \<and> block ! (2 + i) = 0" by auto
  then show "\<exists>i. 2 \<le> i \<and> i < length block \<and> block ! i = 0" by blast
next
  assume "\<exists>i. 2 \<le> i \<and> i < length block \<and> block ! i = 0"
  then obtain i where i: "2 \<le> i" "i < length block" "block ! i = 0" by blast
  then have eq: "2 + (i - 2) = i" by simp
  have "i - 2 < length (drop 2 block)" using i by simp
  moreover have "drop 2 block ! (i - 2) = block ! (2 + (i - 2))"
    using i by (intro nth_drop) simp
  ultimately show "0 \<in> set (drop 2 block)"
    using i(3) eq by (metis nth_mem)
qed

text \<open>
  Claim C7. On a block of at least two bytes \<open>is_valid_pkcs_1_5_signature\<close> returns
  true exactly when the first byte is \<open>0x00\<close>, the second is \<open>0x02\<close> and some byte
  at an index from 2 on is \<open>0x00\<close>; on \<open>[0x00, 0x02, 0x05, 0x06]\<close> it returns false.
\<close>

theorem is_valid_pkcs_1_5_signature_iff:
  "(2 \<le> length block \<longrightarrow>
      is_valid_pkcs_1_5_signature block =
        Inr (block ! 0 = 0 \<and> block ! 1 = 2 \<and> (\<exists>i. 2 \<le> i \<and> i < length block \<and> block ! i = 0)))
   \<and> is_valid_pkcs_1_5_signature [0x00, 0x02, 0x05, 0x06] = Inr False"
proof
  show "2 \<le> length block \<longrightarrow>
      is_valid_pkcs_1_5_signature block =
        Inr (block ! 0 = 0 \<and> block ! 1 = 2 \<and> (\<exists>i. 2 \<le> i \<and> i < length block \<and> block ! i = 0))"
    by (auto simp: is_valid_pkcs_1_5_signature_def signature_scan_iff drop2_zero_iff)
  show "is_valid_pkcs_1_5_signature [0x00, 0x02, 0x05, 0x06] = Inr False"
    by (simp add: is_valid_pkcs_1_5_signature_def)
qed

theorem is_valid_pkcs_1_5_signature_iff_witness:
  "is_valid_pkcs_1_5_signature [0x00, 0x02, 0x05, 0x00, 0x41, 0x42] = Inr True
   \<and> is_valid_pkcs_1_5_signature [0x00, 0x03, 0x00] = Inr False"
proof
  have "\<exists>i. 2 \<le> i \<and> i < length [0x00, 0x02, 0x05, 0x00, 0x41, 0x42 :: byte]
          \<and> [0x00, 0x02, 0x05, 0x00, 0x41, 0x42 :: byte] ! i = 0"
    by (rule exI [of _ 3]) simp
  then show "is_valid_pkcs_1_5_signature [0x00, 0x02, 0x05, 0x00, 0x41, 0x42] = Inr True"
    using is_valid_pkcs_1_5_signature_iff [of "[0x00, 0x02, 0x05, 0x00, 0x41, 0x42]"]
    by simp
  show "is_valid_pkcs_1_5_signature [0x00, 0x03, 0x00] = Inr False"
    using is_valid_pkcs_1_5_signature_iff [of "[0x00, 0x03, 0x00]"] by simp
qed

lemma extract_message_at:
  assumes "2 \<le> i" "i < length block" "block ! i = 0"
    and "\<forall>j. 2 \<le> j \<and> j < i \<longrightarrow> block ! j \<noteq> 0"
  shows "extract_message_pkcs_1_5 block = drop (Suc i) block"
proof -
  have eq: "2 + (i - 2) = i" using assms(1) by simp
  have "drop 2 block ! (i - 2) = block ! (2 + (i - 2))"
    using assms by (intro nth_drop) simp
  then have a: "i - 2 < length (drop 2 block)" "drop 2 block ! (i - 2) = 0"
    using assms eq by simp_all
  have "\<forall>j<i - 2. drop 2 block ! j \<noteq> 0"
  proof (intro allI impI)
    fix j assume "j < i - 2"
    then have "2 \<le> 2 + j \<and> 2 + j < i" by arith
    with assms(4) have "block ! (2 + j) \<noteq> 0" by blast
    then show "drop 2 block ! j \<noteq> 0" using assms(2) \<open>j < i - 2\<close> by simp
  qed
  from extract_scan_found [OF a this, of "2 + 1"]
  have "extract_scan (2 + 1) (drop 2 block) = Suc i" using assms(1) by simp
  then show ?thesis
    by (simp add: extract_message_pkcs_1_5_def)
qed

lemma extract_message_none:
  assumes "\<forall>i. 2 \<le> i \<and> i < length block \<longrightarrow> block ! i \<noteq> 0"
  shows "extract_message_pkcs_1_5 block = block"
proof -
  have "\<forall>i<length (drop 2 block). drop 2 block ! i \<noteq> 0"
  proof (intro allI impI)
    fix i assume "i < length (drop 2 block)"
    then have "2 \<le> 2 + i \<and> 2 + i < length block" by simp
    with assms have "block ! (2 + i) \<noteq> 0" by blast
    then show "drop 2 block ! i \<noteq> 0" using \<open>i < length (drop 2 block)\<close> by simp
  qed
  from extract_scan_none [OF this] show ?thesis
    by (simp add: extract_message_pkcs_1_5_def)
qed

text \<open>
  Claim C8. When \<open>i\<close> is the smallest index from 2 on that holds a zero byte,
  \<open>extract_message_pkcs_1_5\<close> returns the bytes strictly after position \<open>i\<close>; when no
  index from 2 on holds a zero byte it returns its input unchanged; on
  \<open>[0x00, 0x02, 0x05, 0x00, 0x41, 0x42]\<close> it returns \<open>[0x41, 0x42]\<close>.
\<close>

theorem extract_message_pkcs_1_5_spec:
  "(\<forall>i. 2 \<le> i \<and> i < length block \<and> block ! i = 0
        \<and> (\<forall>j. 2 \<le> j \<and> j < i \<longrightarrow> block ! j \<noteq> 0)
      \<longrightarrow> extract_message_pkcs_1_5 block = drop (Suc i) block)
   \<and> ((\<forall>i. 2 \<le> i \<and> i < length block \<longrightarrow> block ! i \<noteq> 0)
      \<longrightarrow> extract_message_pkcs_1_5 block = block)
   \<and> extract_message_pkcs_1_5 [0x00, 0x02, 0x05, 0x00, 0x41, 0x42] = [0x41, 0x42]"
proof (intro conjI allI impI)
  fix i
  assume "2 \<le> i \<and> i < length block \<and> block ! i = 0
        \<and> (\<forall>j. 2 \<le> j \<and> j < i \<longrightarrow> block ! j \<noteq> 0)"
  then show "extract_message_pkcs_1_5 block = drop (Suc i) block"
    using extract_message_at by blast
next
  assume "\<forall>i. 2 \<le> i \<and> i < length block \<longrightarrow> block ! i \<noteq> 0"
  then show "extract_message_pkcs_1_5 block = block" by (rule extract_message_none)
next
  show "extract_message_pkcs_1_5 [0x00, 0x02, 0x05, 0x00, 0x41, 0x42] = [0x41, 0x42]"
    by (simp add: extract_message_pkcs_1_5_def)
qed

theorem extract_message_pkcs_1_5_spec_witness:
  "extract_message_pkcs_1_5 [0x00, 0x02, 0x00, 0x07, 0x00, 0x09] = [0x07, 0x00, 0x09]
   \<and> extract_message_pkcs_1_5 [0x00, 0x00, 0x05, 0x06] = [0x00, 0x00, 0x05, 0x06]"
proof
  let ?b = "[0x00, 0x02, 0x00, 0x07, 0x00, 0x09] :: byte list"
  have "2 \<le> (2::nat) \<and> 2 < length ?b \<and> ?b ! 2 = 0 \<and> (\<forall>j. 2 \<le> j \<and> j < 2 \<longrightarrow> ?b ! j \<noteq> 0)"
    by simp
  with extract_message_pkcs_1_5_spec [of ?b]
  have "extract_message_pkcs_1_5 ?b = drop (Suc 2) ?b" by blast
  then show "extract_message_pkcs_1_5 ?b = [0x07, 0x00, 0x09]" by simp
next
  let ?c = "[0x00, 0x00, 0x05, 0x06] :: byte list"
  have "\<forall>i. 2 \<le> i \<and> i < length ?c \<longrightarrow> ?c ! i \<noteq> 0"
  proof (intro allI impI)
    fix i assume "2 \<le> i \<and> i < length ?c"
    then have "i = 2 \<or> i = 3" by auto
    then show "?c ! i \<noteq> 0" by auto
  qed
  with extract_message_pkcs_1_5_spec [of ?c]
  show "extract_message_pkcs_1_5 ?c = ?c" by blast
qed

text \<open>
  Claim C10. On a block of at least two bytes that \<open>is_valid_pkcs_1_5_signature\<close>
  accepts, \<open>extract_message_pkcs_1_5\<close> returns the suffix starting at some index that
  is at least 3, so the result is at least three bytes shorter than the block and is
  never the whole block.
\<close>

theorem validated_block_extract:
  assumes "2 \<le> length block" and "is_valid_pkcs_1_5_signature block = Inr True"
  shows "\<exists>i. 3 \<le> i \<and> i \<le> length block
           \<and> extract_message_pkcs_1_5 block = drop i block
           \<and> length (extract_message_pkcs_1_5 block) + 3 \<le> length block
           \<and> extract_message_pkcs_1_5 block \<noteq> block"
proof -
  from assms have "signature_scan (drop 2 block)"
    by (auto simp: is_valid_pkcs_1_5_signature_def split: if_splits)
  then have ex: "\<exists>i. 2 \<le> i \<and> i < length block \<and> block ! i = 0"
    using signature_scan_iff drop2_zero_iff by blast
  define m where "m = (LEAST i. 2 \<le> i \<and> i < length block \<and> block ! i = 0)"
  from ex have m: "2 \<le> m \<and> m < length block \<and> block ! m = 0"
    unfolding m_def by (rule LeastI_ex)
  have least: "\<forall>j. 2 \<le> j \<and> j < m \<longrightarrow> block ! j \<noteq> 0"
  proof (intro allI impI)
    fix j assume j: "2 \<le> j \<and> j < m"
    show "block ! j \<noteq> 0"
    proof
      assume "block ! j = 0"
      with j m have "2 \<le> j \<and> j < length block \<and> block ! j = 0" by simp
      then have "m \<le> j" unfolding m_def by (rule Least_le)
      with j show False by simp
    qed
  qed
  from m least have e: "extract_message_pkcs_1_5 block = drop (Suc m) block"
    using extract_message_at by blast
  from m have m2: "2 \<le> m" and ml: "m < length block" by simp_all
  have len: "length (drop (Suc m) block) = length block - Suc m" by simp
  have "length (drop (Suc m) block) \<noteq> length block" unfolding len using ml by arith
  then have ne: "drop (Suc m) block \<noteq> block" by metis
  have "3 \<le> Suc m \<and> Suc m \<le> length block" using m2 ml by arith
  moreover have "length (drop (Suc m) block) + 3 \<le> length block"
    unfolding len using m2 ml by arith
  ultimately show ?thesis using e ne by metis
qed

theorem validated_block_extract_witness:
  "\<exists>i. 3 \<le> i \<and> i \<le> length [0x00, 0x02, 0x05, 0x00, 0x41, 0x42 :: byte]
     \<and> extract_message_pkcs_1_5 [0x00, 0x02, 0x05, 0x00, 0x41, 0x42]
         = drop i [0x00, 0x02, 0x05, 0x00, 0x41, 0x42]
     \<and> length (extract_message_pkcs_1_5 [0x00, 0x02, 0x05, 0x00, 0x41, 0x42]) + 3
         \<le> length [0x00, 0x02, 0x05, 0x00, 0x41, 0x42 :: byte]
     \<and> extract_message_pkcs_1_5 [0x00, 0x02, 0x05, 0x00, 0x41, 0x42]
         \<noteq> [0x00, 0x02, 0x05, 0x00, 0x41, 0x42]"
proof -
  have a: "2 \<le> length [0x00, 0x02, 0x05, 0x00, 0x41, 0x42 :: byte]" by simp
  have b: "is_valid_pkcs_1_5_signature [0x00, 0x02, 0x05, 0x00, 0x41, 0x42] = Inr True"
    by (simp add: is_valid_pkcs_1_5_signature_def)
  show ?thesis by (rule validated_block_extract [OF a b])
qed

end
